theory Spec2Isabelle
  imports Complex_Main
begin

section \<open>The chained hashtable of Hashtable.h\<close>

text \<open>
  The class template \<open>hashtable<Key, T, Hasher, KeyEqual>\<close> keeps a vector of buckets
  (\<open>table_\<close>), each bucket a \<open>std::list\<close> of key/value pairs, together with the two
  counters \<open>bucket_count_\<close> and \<open>count_\<close>.  A name cannot end in an underscore here, so
  the fields \<open>table_\<close>, \<open>bucket_count_\<close>, \<open>count_\<close>, \<open>index_\<close> and \<open>entry_\<close> are
  written \<open>table_f\<close>, \<open>bucket_count_f\<close>, \<open>count_f\<close>, \<open>index_f\<close> and \<open>entry_f\<close>.
  The hasher \<open>h_\<close> is a parameter \<open>h\<close> of
  every operation that hashes; \<open>KeyEqual\<close> is the default \<open>std::equal_to<Key>\<close>, that is
  HOL equality on the key type.

  Values of type \<open>size_t\<close> are natural numbers.  The one subtraction that can wrap,
  \<open>bucket_count() - 1\<close>, is written with \<open>size_dec\<close>.  An increment of a bucket index
  is only ever executed after \<open>at(index)\<close> has succeeded, so the index is below
  \<open>table_.size()\<close> and the increment cannot wrap; \<open>count_\<close> counts live list nodes, of
  which an address space holds fewer than \<open>2 ^ 64\<close>, so \<open>count_++\<close> does not wrap either.

  Everything the C++ standard leaves undefined, and every exception, is a value of the
  type \<open>error\<close>.
\<close>

datatype error =
    DivisionByZero    \<comment> \<open>\<open>index %= bucket_count_\<close> or \<open>count_ / bucket_count_\<close> with zero buckets\<close>
  | OutOfRange        \<comment> \<open>\<open>std::out_of_range\<close> thrown by \<open>std::vector::at\<close>\<close>
  | UncheckedIndex    \<comment> \<open>\<open>table_[index]\<close> beyond the vector\<close>
  | InvalidIterator   \<comment> \<open>use of an erased or a past-the-end list iterator\<close>
  | SignedOverflow    \<comment> \<open>\<open>i++\<close> on an \<open>int\<close> holding \<open>INT_MAX\<close>, with \<open>int\<close> of 32 bits\<close>

type_synonym ('k, 'v) hash_entry_type = "'k \<times> 'v"
type_synonym ('k, 'v) bucket_type = "('k \<times> 'v) list"
type_synonym ('k, 'v) index_table = "('k \<times> 'v) list list"

record ('k, 'v) hashtable =
  table_f :: "('k, 'v) index_table"
  bucket_count_f :: nat
  count_f :: nat

text \<open>
  A \<open>std::list\<close> iterator points at a node of one particular list or at that list's
  past-the-end sentinel.  It is modelled by the number of the bucket whose list it
  belongs to and its offset from the head of that list; the offset \<open>length b\<close> is the
  sentinel of bucket \<open>b\<close>.  Two list iterators are equal when they point at the same
  place, so sentinels of different buckets differ.  The code compares iterators of
  different buckets (\<open>it != end()\<close> in a traversal, \<open>begin() == end()\<close> on an empty
  table); the comparison is that of the node addresses.
\<close>

type_synonym bucket_iterator = "nat \<times> nat"

record iterator =
  index_f :: nat
  entry_f :: bucket_iterator

type_synonym const_iterator = iterator

definition size_dec :: "nat \<Rightarrow> nat" where
  "size_dec n = (if n = 0 then 2 ^ 64 - 1 else n - 1)"

subsection \<open>Construction\<close>

text \<open>
  The constructor's loop \<open>for (int i = 0; i < buckets; i++) table_.push_back(bucket_type())\<close>
  compares the \<open>int\<close> counter with the \<open>size_t\<close> argument and overflows the counter
  when the argument exceeds \<open>INT_MAX\<close>.
\<close>

function ctor_loop :: "nat \<Rightarrow> nat \<Rightarrow> ('k, 'v) index_table \<Rightarrow> error + ('k, 'v) index_table" where
  "ctor_loop i buckets tbl =
     (if i < buckets then
        (if i = 2147483647 then Inl SignedOverflow
         else ctor_loop (i + 1) buckets (tbl @ [[]]))
      else Inr tbl)"
  by pat_completeness auto
termination
  by (relation "measure (\<lambda>(i, buckets, tbl). buckets - i)") auto

declare ctor_loop.simps [simp del]

definition hashtable :: "nat \<Rightarrow> error + ('k, 'v) hashtable" where
  "hashtable buckets =
     (case ctor_loop 0 buckets [] of
        Inl e \<Rightarrow> Inl e
      | Inr tbl \<Rightarrow> Inr \<lparr>table_f = tbl, bucket_count_f = buckets, count_f = 0\<rparr>)"

subsection \<open>Accessors\<close>

definition bucket_count :: "('k, 'v) hashtable \<Rightarrow> nat" where
  "bucket_count t = bucket_count_f t"

definition count :: "('k, 'v) hashtable \<Rightarrow> nat" where
  "count t = count_f t"

definition at_index :: "('k, 'v) hashtable \<Rightarrow> nat \<Rightarrow> error + ('k, 'v) bucket_type" where
  "at_index t index =
     (if index < length (table_f t) then Inr (table_f t ! index) else Inl OutOfRange)"

text \<open>
  \<open>count_ / bucket_count_\<close> divides two \<open>size_t\<close> values and the quotient is then
  converted to \<open>double\<close>; the conversion is exact below \<open>2 ^ 53\<close>.
\<close>

definition load_factor :: "('k, 'v) hashtable \<Rightarrow> error + real" where
  "load_factor t =
     (if bucket_count_f t = 0 then Inl DivisionByZero
      else Inr (real (count_f t div bucket_count_f t)))"

subsection \<open>begin() and end()\<close>

function begin_loop :: "('k, 'v) hashtable \<Rightarrow> nat \<Rightarrow> error + iterator" where
  "begin_loop t index =
     (case at_index t index of
        Inl e \<Rightarrow> Inl e
      | Inr b \<Rightarrow>
          if b = [] then
            (if index = size_dec (bucket_count t) then
               (case at_index t (size_dec (bucket_count t)) of
                  Inl e \<Rightarrow> Inl e
                | Inr l \<Rightarrow> Inr \<lparr>index_f = index, entry_f = (size_dec (bucket_count t), length l)\<rparr>)
             else begin_loop t (index + 1))
          else Inr \<lparr>index_f = index, entry_f = (index, 0)\<rparr>)"
  by pat_completeness auto
termination
  by (relation "measure (\<lambda>(t, index). length (table_f t) - index)")
     (auto simp: at_index_def split: if_splits)

declare begin_loop.simps [simp del]

definition begin_ht :: "('k, 'v) hashtable \<Rightarrow> error + iterator" where
  "begin_ht t = begin_loop t 0"

function end_loop :: "('k, 'v) hashtable \<Rightarrow> nat \<Rightarrow> error + iterator" where
  "end_loop t index =
     (case at_index t index of
        Inl e \<Rightarrow> Inl e
      | Inr b \<Rightarrow>
          if b = [] then
            (if index = 0 then
               (case at_index t (size_dec (bucket_count t)) of
                  Inl e \<Rightarrow> Inl e
                | Inr l \<Rightarrow> Inr \<lparr>index_f = index, entry_f = (size_dec (bucket_count t), length l)\<rparr>)
             else end_loop t (index - 1))
          else Inr \<lparr>index_f = index, entry_f = (index, length b)\<rparr>)"
  by pat_completeness auto
termination
  by (relation "measure (\<lambda>(t, index). index)") auto

declare end_loop.simps [simp del]

definition end_ht :: "('k, 'v) hashtable \<Rightarrow> error + iterator" where
  "end_ht t = end_loop t (size_dec (bucket_count t))"

subsection \<open>The iterator\<close>

definition operator_eq :: "iterator \<Rightarrow> iterator \<Rightarrow> bool" where
  "operator_eq lhs rhs = (entry_f lhs = entry_f rhs)"

definition operator_neq :: "iterator \<Rightarrow> iterator \<Rightarrow> bool" where
  "operator_neq lhs rhs = (\<not> operator_eq lhs rhs)"

text \<open>\<open>const_iterator::operator==\<close> has the same body.\<close>

definition const_operator_eq :: "const_iterator \<Rightarrow> const_iterator \<Rightarrow> bool" where
  "const_operator_eq lhs rhs = (entry_f lhs = entry_f rhs)"

text \<open>Dereferencing reads the node the list iterator points at; a sentinel has none.\<close>

definition operator_deref :: "('k, 'v) hashtable \<Rightarrow> iterator \<Rightarrow> error + ('k, 'v) hash_entry_type" where
  "operator_deref t it =
     (case entry_f it of (b, p) \<Rightarrow>
        if b < length (table_f t) \<and> p < length (table_f t ! b) then Inr (table_f t ! b ! p)
        else Inl InvalidIterator)"

text \<open>\<open>++entry_f\<close> on a list iterator: defined on a node, undefined on a sentinel.\<close>

definition list_next :: "('k, 'v) hashtable \<Rightarrow> bucket_iterator \<Rightarrow> error + bucket_iterator" where
  "list_next t e =
     (case e of (b, p) \<Rightarrow>
        if b < length (table_f t) \<and> p < length (table_f t ! b) then Inr (b, Suc p)
        else Inl InvalidIterator)"

text \<open>
  The \<open>do ... while\<close> loop of \<open>operator++\<close>.  The result is the pair of the updated
  \<open>*this\<close> and the iterator returned by value.
\<close>

function next_bucket :: "('k, 'v) hashtable \<Rightarrow> iterator \<Rightarrow> error + iterator \<times> iterator" where
  "next_bucket t it =
     (if index_f it + 1 = bucket_count t then
        (case end_ht t of
           Inl e \<Rightarrow> Inl e
         | Inr e \<Rightarrow> Inr (it\<lparr>index_f := index_f it + 1\<rparr>, e))
      else
        (case at_index t (index_f it + 1) of
           Inl e \<Rightarrow> Inl e
         | Inr b \<Rightarrow>
             if b = [] then next_bucket t (it\<lparr>index_f := index_f it + 1\<rparr>)
             else Inr (\<lparr>index_f = index_f it + 1, entry_f = (index_f it + 1, 0)\<rparr>,
                       \<lparr>index_f = index_f it + 1, entry_f = (index_f it + 1, 0)\<rparr>)))"
  by pat_completeness auto
termination
  by (relation "measure (\<lambda>(t, it). length (table_f t) - index_f it)")
     (auto simp: at_index_def split: if_splits)

declare next_bucket.simps [simp del]

definition operator_increment :: "('k, 'v) hashtable \<Rightarrow> iterator \<Rightarrow> error + iterator \<times> iterator" where
  "operator_increment t it =
     (case at_index t (index_f it) of
        Inl e \<Rightarrow> Inl e
      | Inr b \<Rightarrow>
          if b = [] then next_bucket t it
          else
            (case list_next t (entry_f it) of
               Inl e \<Rightarrow> Inl e
             | Inr e' \<Rightarrow>
                 if e' \<noteq> (index_f it, length b) then Inr (it\<lparr>entry_f := e'\<rparr>, it\<lparr>entry_f := e'\<rparr>)
                 else next_bucket t (it\<lparr>entry_f := e'\<rparr>)))"

subsection \<open>insert, find, contains_key, erase\<close>

text \<open>
  The scan \<open>for (it = b->begin(); it != b->end(); it++) if (equal_to_(it->first, key)) ...\<close>
  shared by \<open>insert\<close>, \<open>find\<close> and \<open>contains_key\<close>: the offset of the first node whose
  key compares equal.
\<close>

fun bucket_scan :: "'k \<Rightarrow> ('k, 'v) bucket_type \<Rightarrow> nat \<Rightarrow> nat option" where
  "bucket_scan key [] p = None"
| "bucket_scan key (e # rest) p =
     (if fst e = key then Some p else bucket_scan key rest (Suc p))"

definition insert_ht ::
  "('k \<Rightarrow> nat) \<Rightarrow> ('k, 'v) hashtable \<Rightarrow> 'k \<Rightarrow> 'v \<Rightarrow> error + ('k, 'v) hashtable \<times> iterator" where
  "insert_ht h t key obj =
     (if bucket_count_f t = 0 then Inl DivisionByZero
      else
        (let index = h key mod bucket_count_f t in
           if length (table_f t) \<le> index then Inl UncheckedIndex
           else
             (let b = table_f t ! index in
                case bucket_scan key b 0 of
                  Some p \<Rightarrow> Inr (t, \<lparr>index_f = index, entry_f = (index, p)\<rparr>)
                | None \<Rightarrow>
                    Inr (t\<lparr>table_f := (table_f t)[index := b @ [(key, obj)]],
                           count_f := count_f t + 1\<rparr>,
                         \<lparr>index_f = index, entry_f = (index, length (b @ [(key, obj)]) - 1)\<rparr>))))"

definition find_ht :: "('k \<Rightarrow> nat) \<Rightarrow> ('k, 'v) hashtable \<Rightarrow> 'k \<Rightarrow> error + iterator" where
  "find_ht h t key =
     (if bucket_count_f t = 0 then Inl DivisionByZero
      else
        (let index = h key mod bucket_count_f t in
           if length (table_f t) \<le> index then Inl UncheckedIndex
           else
             (case bucket_scan key (table_f t ! index) 0 of
                Some p \<Rightarrow> Inr \<lparr>index_f = index, entry_f = (index, p)\<rparr>
              | None \<Rightarrow> end_ht t)))"

definition contains_key :: "('k \<Rightarrow> nat) \<Rightarrow> ('k, 'v) hashtable \<Rightarrow> 'k \<Rightarrow> error + bool" where
  "contains_key h t key =
     (if bucket_count_f t = 0 then Inl DivisionByZero
      else
        (let index = h key mod bucket_count_f t in
           if length (table_f t) \<le> index then Inl UncheckedIndex
           else
             (case bucket_scan key (table_f t ! index) 0 of
                Some p \<Rightarrow> Inr True
              | None \<Rightarrow> Inr False)))"

text \<open>\<open>at(key)\<close> is \<open>find(key)->second\<close>.\<close>

definition at_key :: "('k \<Rightarrow> nat) \<Rightarrow> ('k, 'v) hashtable \<Rightarrow> 'k \<Rightarrow> error + 'v" where
  "at_key h t key =
     (case find_ht h t key of
        Inl e \<Rightarrow> Inl e
      | Inr it \<Rightarrow> (case operator_deref t it of Inl e \<Rightarrow> Inl e | Inr x \<Rightarrow> Inr (snd x)))"

text \<open>
  The loop of \<open>erase\<close> keeps running after \<open>b->erase(it)\<close>: there is no \<open>return\<close> or
  \<open>break\<close> in the body, so the \<open>it++\<close> of the \<open>for\<close> statement is applied to the iterator
  that \<open>std::list::erase\<close> has just invalidated.  The loop iterator is therefore either
  on the list (\<open>Live\<close>, with its offset) or \<open>Erased\<close>.
\<close>

datatype list_cursor = Live nat | Erased

function erase_loop ::
  "'k \<Rightarrow> nat \<Rightarrow> ('k, 'v) hashtable \<Rightarrow> list_cursor \<Rightarrow> error + ('k, 'v) hashtable" where
  "erase_loop key index t Erased = Inl InvalidIterator"
| "erase_loop key index t (Live p) =
     (if length (table_f t ! index) \<le> p then Inr t
      else if key = fst (table_f t ! index ! p) then
        erase_loop key index
          (t\<lparr>table_f := (table_f t)[index := take p (table_f t ! index) @ drop (Suc p) (table_f t ! index)],
             count_f := size_dec (count_f t)\<rparr>)
          Erased
      else erase_loop key index t (Live (Suc p)))"
  by pat_completeness auto
termination
  by (relation "measure (\<lambda>(key, index, t, c).
        case c of Erased \<Rightarrow> 0 | Live p \<Rightarrow> Suc (length (table_f t ! index) - p))")
     auto

declare erase_loop.simps [simp del]

definition erase :: "('k \<Rightarrow> nat) \<Rightarrow> ('k, 'v) hashtable \<Rightarrow> 'k \<Rightarrow> error + ('k, 'v) hashtable" where
  "erase h t key =
     (if bucket_count_f t = 0 then Inl DivisionByZero
      else
        (let index = h key mod bucket_count_f t in
           if length (table_f t) \<le> index then Inl UncheckedIndex
           else erase_loop key index t (Live 0)))"

subsection \<open>Traversal and population by client code\<close>

text \<open>
  The client loop \<open>for (it = t.begin(); it != t.end(); ++it) visit(*it)\<close>, with a bound
  on the number of iterations; \<open>None\<close> means that the bound was reached.  The loop
  records the list position and the entry of every visit.
\<close>

fun traverse ::
  "nat \<Rightarrow> ('k, 'v) hashtable \<Rightarrow> iterator \<Rightarrow> (bucket_iterator \<times> ('k \<times> 'v)) list \<Rightarrow>
   (error + (bucket_iterator \<times> ('k \<times> 'v)) list) option" where
  "traverse 0 t it acc = None"
| "traverse (Suc fuel) t it acc =
     (case end_ht t of
        Inl e \<Rightarrow> Some (Inl e)
      | Inr e \<Rightarrow>
          if operator_neq it e then
            (case operator_deref t it of
               Inl e \<Rightarrow> Some (Inl e)
             | Inr x \<Rightarrow>
                 (case operator_increment t it of
                    Inl e \<Rightarrow> Some (Inl e)
                  | Inr (it', r) \<Rightarrow> traverse fuel t it' (acc @ [(entry_f it, x)])))
          else Some (Inr acc))"

definition iterate ::
  "nat \<Rightarrow> ('k, 'v) hashtable \<Rightarrow> (error + (bucket_iterator \<times> ('k \<times> 'v)) list) option" where
  "iterate fuel t =
     (case begin_ht t of Inl e \<Rightarrow> Some (Inl e) | Inr b \<Rightarrow> traverse fuel t b [])"

fun insert_all ::
  "('k \<Rightarrow> nat) \<Rightarrow> ('k, 'v) hashtable \<Rightarrow> ('k \<times> 'v) list \<Rightarrow> error + ('k, 'v) hashtable" where
  "insert_all h t [] = Inr t"
| "insert_all h t (kv # kvs) =
     (case insert_ht h t (fst kv) (snd kv) of
        Inl e \<Rightarrow> Inl e
      | Inr (t', it) \<Rightarrow> insert_all h t' kvs)"

definition build :: "('k \<Rightarrow> nat) \<Rightarrow> nat \<Rightarrow> ('k \<times> 'v) list \<Rightarrow> error + ('k, 'v) hashtable" where
  "build h buckets kvs =
     (case hashtable buckets of Inl e \<Rightarrow> Inl e | Inr t \<Rightarrow> insert_all h t kvs)"

text \<open>Tables that some sequence of defined operations produces.\<close>

inductive reachable :: "('k \<Rightarrow> nat) \<Rightarrow> ('k, 'v) hashtable \<Rightarrow> bool" for h :: "'k \<Rightarrow> nat" where
  reach_ctor: "hashtable buckets = Inr t \<Longrightarrow> reachable h t"
| reach_insert: "reachable h t \<Longrightarrow> insert_ht h t key obj = Inr (t', it) \<Longrightarrow> reachable h t'"
| reach_erase: "reachable h t \<Longrightarrow> erase h t key = Inr t' \<Longrightarrow> reachable h t'"

subsection \<open>Shape predicates\<close>

definition table_shape :: "('k, 'v) hashtable \<Rightarrow> bool" where
  "table_shape t = (length (table_f t) = bucket_count_f t \<and> 0 < bucket_count_f t)"

definition all_empty :: "('k, 'v) hashtable \<Rightarrow> bool" where
  "all_empty t = list_all (\<lambda>b. b = []) (table_f t)"

subsection \<open>Invariants\<close>

text \<open>
  The entries of a table in iteration order, and the three properties every table built
  by the operations has: each entry lies in the bucket its key hashes to, no bucket
  holds a key twice, and \<open>count_\<close> is the number of nodes.
\<close>

definition entries :: "('k, 'v) hashtable \<Rightarrow> ('k \<times> 'v) list" where
  "entries t = concat (table_f t)"

definition entries_placed :: "('k \<Rightarrow> nat) \<Rightarrow> ('k, 'v) hashtable \<Rightarrow> bool" where
  "entries_placed h t =
     (\<forall>i \<in> {..<length (table_f t)}. \<forall>e \<in> set (table_f t ! i). h (fst e) mod bucket_count_f t = i)"

definition keys_distinct :: "('k, 'v) hashtable \<Rightarrow> bool" where
  "keys_distinct t = list_all (\<lambda>b. distinct (map fst b)) (table_f t)"

definition table_inv :: "('k \<Rightarrow> nat) \<Rightarrow> ('k, 'v) hashtable \<Rightarrow> bool" where
  "table_inv h t =
     (table_shape t \<and> count_f t = sum_list (map length (table_f t)) \<and>
      entries_placed h t \<and> keys_distinct t)"


subsection \<open>The nodes of a table in iteration order\<close>

text \<open>
  The nodes of bucket \<open>i\<close> from offset \<open>p\<close> on, each with its list position, and the
  nodes of all buckets from bucket \<open>i\<close> on.
\<close>

definition bucket_nodes ::
  "('k, 'v) hashtable \<Rightarrow> nat \<Rightarrow> nat \<Rightarrow> (bucket_iterator \<times> ('k \<times> 'v)) list" where
  "bucket_nodes t i p = map (\<lambda>q. ((i, q), table_f t ! i ! q)) [p..<length (table_f t ! i)]"

definition nodes_from ::
  "('k, 'v) hashtable \<Rightarrow> nat \<Rightarrow> (bucket_iterator \<times> ('k \<times> 'v)) list" where
  "nodes_from t i = concat (map (\<lambda>j. bucket_nodes t j 0) [i..<length (table_f t)])"


subsection \<open>Sample tables\<close>

definition empty3 :: "(nat, nat) hashtable" where
  "empty3 = \<lparr>table_f = [[], [], []], bucket_count_f = 3, count_f = 0\<rparr>"

definition empty4 :: "(nat, nat) hashtable" where
  "empty4 = \<lparr>table_f = [[], [], [], []], bucket_count_f = 4, count_f = 0\<rparr>"


definition one_entry :: "(nat, nat) hashtable" where
  "one_entry = \<lparr>table_f = [[(5, 7)]], bucket_count_f = 1, count_f = 1\<rparr>"

definition quarter_full :: "(nat, nat) hashtable" where
  "quarter_full = \<lparr>table_f = [[], [(5, 10)], [], []], bucket_count_f = 4, count_f = 1\<rparr>"


definition three_in_four :: "(nat, nat) hashtable" where
  "three_in_four =
     \<lparr>table_f = [[], [(5, 11), (9, 12)], [], [(7, 13)]], bucket_count_f = 4, count_f = 3\<rparr>"


section \<open>Properties of the scans over buckets\<close>


lemma at_index_in [simp]: "index < length (table_f t) \<Longrightarrow> at_index t index = Inr (table_f t ! index)"
  by (simp add: at_index_def)

lemma at_index_out [simp]: "length (table_f t) \<le> index \<Longrightarrow> at_index t index = Inl OutOfRange"
  by (simp add: at_index_def)

lemma size_dec_pos [simp]: "0 < n \<Longrightarrow> size_dec n = n - 1"
  by (simp add: size_dec_def)

lemma end_loop_nonempty:
  "idx < length (table_f t) \<Longrightarrow> j \<le> idx \<Longrightarrow> table_f t ! j \<noteq> [] \<Longrightarrow>
   (\<forall>m. j < m \<and> m \<le> idx \<longrightarrow> table_f t ! m = []) \<Longrightarrow>
   end_loop t idx = Inr \<lparr>index_f = j, entry_f = (j, length (table_f t ! j))\<rparr>"
proof (induction idx)
  case 0
  then show ?case by (simp add: end_loop.simps)
next
  case (Suc idx)
  show ?case
  proof (cases "j = Suc idx")
    case True
    with Suc.prems show ?thesis by (simp add: end_loop.simps)
  next
    case False
    with Suc.prems have e: "table_f t ! Suc idx = []" and le: "j \<le> idx" by auto
    have "end_loop t (Suc idx) = end_loop t idx"
      using Suc.prems(1) e by (subst end_loop.simps) simp
    also have "\<dots> = Inr \<lparr>index_f = j, entry_f = (j, length (table_f t ! j))\<rparr>"
      using Suc.prems le by (intro Suc.IH) auto
    finally show ?thesis .
  qed
qed

lemma end_loop_empty:
  "idx < length (table_f t) \<Longrightarrow> table_shape t \<Longrightarrow> (\<forall>m\<le>idx. table_f t ! m = []) \<Longrightarrow>
   end_loop t idx =
     Inr \<lparr>index_f = 0, entry_f = (bucket_count_f t - 1, length (table_f t ! (bucket_count_f t - 1)))\<rparr>"
proof (induction idx)
  case 0
  then show ?case by (simp add: end_loop.simps table_shape_def bucket_count_def)
next
  case (Suc idx)
  have "end_loop t (Suc idx) = end_loop t idx"
    using Suc.prems by (subst end_loop.simps) simp
  then show ?case using Suc by simp
qed

lemma begin_loop_nonempty:
  "j < length (table_f t) \<Longrightarrow> idx \<le> j \<Longrightarrow> table_f t ! j \<noteq> [] \<Longrightarrow>
   (\<forall>m. idx \<le> m \<and> m < j \<longrightarrow> table_f t ! m = []) \<Longrightarrow> table_shape t \<Longrightarrow>
   begin_loop t idx = Inr \<lparr>index_f = j, entry_f = (j, 0)\<rparr>"
proof (induction "j - idx" arbitrary: idx)
  case 0
  then show ?case by (simp add: begin_loop.simps)
next
  case (Suc d)
  then have lt: "idx < j" and e: "table_f t ! idx = []" by auto
  have ne: "idx \<noteq> size_dec (bucket_count t)"
    using Suc.prems lt by (simp add: table_shape_def bucket_count_def)
  have "begin_loop t idx = begin_loop t (idx + 1)"
    using Suc.prems lt e ne by (subst begin_loop.simps) simp
  also have "\<dots> = Inr \<lparr>index_f = j, entry_f = (j, 0)\<rparr>"
    using Suc.prems lt Suc.hyps(2) by (intro Suc.hyps(1)) auto
  finally show ?case .
qed

lemma begin_loop_empty:
  "table_shape t \<Longrightarrow> idx < bucket_count_f t \<Longrightarrow>
   (\<forall>m. idx \<le> m \<and> m < bucket_count_f t \<longrightarrow> table_f t ! m = []) \<Longrightarrow>
   begin_loop t idx =
     Inr \<lparr>index_f = bucket_count_f t - 1, entry_f = (bucket_count_f t - 1, 0)\<rparr>"
proof (induction "bucket_count_f t - idx" arbitrary: idx)
  case 0
  then show ?case by simp
next
  case (Suc d)
  show ?case
  proof (cases "idx = bucket_count_f t - 1")
    case True
    with Suc.prems show ?thesis
      by (subst begin_loop.simps) (simp add: table_shape_def bucket_count_def)
  next
    case False
    have "begin_loop t idx = begin_loop t (idx + 1)"
      using Suc.prems False by (subst begin_loop.simps) (simp add: table_shape_def bucket_count_def)
    also have "\<dots> = Inr \<lparr>index_f = bucket_count_f t - 1, entry_f = (bucket_count_f t - 1, 0)\<rparr>"
      using Suc.prems False Suc.hyps(2) by (intro Suc.hyps(1)) auto
    finally show ?thesis .
  qed
qed


lemma next_bucket_none:
  "table_shape t \<Longrightarrow> index_f it < bucket_count_f t \<Longrightarrow>
   (\<forall>m. index_f it < m \<and> m < bucket_count_f t \<longrightarrow> table_f t ! m = []) \<Longrightarrow>
   next_bucket t it =
     (case end_ht t of Inl e \<Rightarrow> Inl e | Inr e \<Rightarrow> Inr (it\<lparr>index_f := bucket_count_f t\<rparr>, e))"
proof (induction "bucket_count_f t - index_f it" arbitrary: it)
  case 0
  then show ?case by simp
next
  case (Suc d)
  show ?case
  proof (cases "index_f it + 1 = bucket_count_f t")
    case True
    then have "index_f it + 1 = bucket_count t"
      by (simp add: bucket_count_def)
    then show ?thesis
      by (subst next_bucket.simps) (simp add: bucket_count_def split: sum.splits)
  next
    case False
    with Suc.prems have lt: "index_f it + 1 < bucket_count_f t" by simp
    have "next_bucket t it = next_bucket t (it\<lparr>index_f := index_f it + 1\<rparr>)"
      using Suc.prems lt by (subst next_bucket.simps) (simp add: table_shape_def bucket_count_def)
    also have "\<dots> = (case end_ht t of Inl e \<Rightarrow> Inl e
        | Inr e \<Rightarrow> Inr (it\<lparr>index_f := index_f it + 1\<rparr>\<lparr>index_f := bucket_count_f t\<rparr>, e))"
      using Suc.prems lt Suc.hyps(2) by (intro Suc.hyps(1)) auto
    finally show ?thesis by (simp split: sum.splits)
  qed
qed

lemma next_bucket_found:
  "table_shape t \<Longrightarrow> index_f it < j \<Longrightarrow> j < length (table_f t) \<Longrightarrow> table_f t ! j \<noteq> [] \<Longrightarrow>
   (\<forall>m. index_f it < m \<and> m < j \<longrightarrow> table_f t ! m = []) \<Longrightarrow>
   next_bucket t it =
     Inr (\<lparr>index_f = j, entry_f = (j, 0)\<rparr>, \<lparr>index_f = j, entry_f = (j, 0)\<rparr>)"
proof (induction "j - index_f it" arbitrary: it)
  case 0
  then show ?case by simp
next
  case (Suc d)
  have nb: "index_f it + 1 \<noteq> bucket_count t"
    using Suc.prems by (simp add: table_shape_def bucket_count_def)
  show ?case
  proof (cases "index_f it + 1 = j")
    case True
    with Suc.prems nb show ?thesis
      by (subst next_bucket.simps) simp
  next
    case False
    with Suc.prems have lt: "index_f it + 1 < j" by simp
    have "next_bucket t it = next_bucket t (it\<lparr>index_f := index_f it + 1\<rparr>)"
      using Suc.prems lt nb by (subst next_bucket.simps) simp
    also have "\<dots> = Inr (\<lparr>index_f = j, entry_f = (j, 0)\<rparr>, \<lparr>index_f = j, entry_f = (j, 0)\<rparr>)"
      using Suc.prems lt Suc.hyps(2) by (intro Suc.hyps(1)) auto
    finally show ?thesis .
  qed
qed

lemma all_empty_nth: "all_empty t \<Longrightarrow> m < length (table_f t) \<Longrightarrow> table_f t ! m = []"
  by (simp add: all_empty_def list_all_length)

lemma begin_all_empty:
  assumes "table_shape t" "all_empty t"
  shows "begin_ht t = Inr \<lparr>index_f = bucket_count_f t - 1, entry_f = (bucket_count_f t - 1, 0)\<rparr>"
  unfolding begin_ht_def using assms
  by (intro begin_loop_empty) (auto simp: table_shape_def all_empty_nth)

lemma end_all_empty:
  assumes "table_shape t" "all_empty t"
  shows "end_ht t = Inr \<lparr>index_f = 0, entry_f = (bucket_count_f t - 1, 0)\<rparr>"
proof -
  have "end_loop t (bucket_count_f t - 1) =
     Inr \<lparr>index_f = 0, entry_f = (bucket_count_f t - 1, length (table_f t ! (bucket_count_f t - 1)))\<rparr>"
    using assms by (intro end_loop_empty) (auto simp: table_shape_def all_empty_nth)
  moreover have "table_f t ! (bucket_count_f t - 1) = []"
    using assms by (auto simp: table_shape_def all_empty_nth)
  ultimately show ?thesis
    using assms by (simp add: end_ht_def bucket_count_def table_shape_def)
qed

lemma empty3_shape: "table_shape empty3"
  by (simp add: empty3_def table_shape_def)

lemma empty3_all_empty: "all_empty empty3"
  by (simp add: empty3_def all_empty_def)

section \<open>Properties of construction and of the scans within a bucket\<close>

lemma ctor_loop_ok:
  "i \<le> buckets \<Longrightarrow> buckets \<le> 2147483647 \<Longrightarrow>
   ctor_loop i buckets tbl = Inr (tbl @ replicate (buckets - i) [])"
proof (induction i buckets tbl rule: ctor_loop.induct)
  case (1 i buckets tbl)
  show ?case
  proof (cases "i < buckets")
    case True
    then have ne: "i \<noteq> 2147483647" using "1.prems" by simp
    have "ctor_loop i buckets tbl = ctor_loop (i + 1) buckets (tbl @ [[]])"
      using True ne by (subst ctor_loop.simps) simp
    also have "\<dots> = Inr ((tbl @ [[]]) @ replicate (buckets - (i + 1)) [])"
      using True ne "1.prems" by (intro "1.IH") auto
    also have "(tbl @ [[]]) @ replicate (buckets - (i + 1)) [] = tbl @ replicate (buckets - i) []"
      using True by (simp add: Suc_diff_Suc replicate_app_Cons_same flip: replicate_Suc)
    finally show ?thesis .
  next
    case False
    with "1.prems" show ?thesis by (subst ctor_loop.simps) simp
  qed
qed

lemma hashtable_ok:
  "buckets \<le> 2147483647 \<Longrightarrow>
   hashtable buckets = Inr \<lparr>table_f = replicate buckets [], bucket_count_f = buckets, count_f = 0\<rparr>"
  by (simp add: hashtable_def ctor_loop_ok)

lemma ctor_loop_overflow:
  "2147483647 < buckets \<Longrightarrow> i \<le> 2147483647 \<Longrightarrow> ctor_loop i buckets tbl = Inl SignedOverflow"
proof (induction "2147483647 - i" arbitrary: i tbl)
  case 0
  then have "i = 2147483647" by simp
  with "0.prems" show ?case by (subst ctor_loop.simps) simp
next
  case (Suc d)
  then have lt: "i < 2147483647" by simp
  have "ctor_loop i buckets tbl = ctor_loop (i + 1) buckets (tbl @ [[]])"
    using lt Suc.prems by (subst ctor_loop.simps) simp
  also have "\<dots> = Inl SignedOverflow"
    using Suc lt by (intro Suc.hyps(1)) auto
  finally show ?case .
qed

lemma hashtable_Inr:
  fixes t :: "('a, 'b) hashtable"
  assumes a: "hashtable buckets = Inr t"
  shows "t = \<lparr>table_f = replicate buckets [], bucket_count_f = buckets, count_f = 0\<rparr>"
proof (cases "buckets \<le> 2147483647")
  case True
  have "hashtable buckets =
    (Inr \<lparr>table_f = replicate buckets [], bucket_count_f = buckets, count_f = 0\<rparr>
      :: error + ('a, 'b) hashtable)"
    by (rule hashtable_ok [OF True])
  with a show ?thesis by simp
next
  case False
  then have "ctor_loop 0 buckets ([] :: ('a, 'b) index_table) = Inl SignedOverflow"
    by (intro ctor_loop_overflow) auto
  with a show ?thesis by (simp add: hashtable_def)
qed

lemma bucket_scan_None: "bucket_scan key b p = None \<longleftrightarrow> key \<notin> fst ` set b"
  by (induction b arbitrary: p) auto

lemma bucket_scan_Some:
  "bucket_scan key b p = Some q \<Longrightarrow>
   p \<le> q \<and> q - p < length b \<and> fst (b ! (q - p)) = key \<and> (\<forall>m < q - p. fst (b ! m) \<noteq> key)"
proof (induction b arbitrary: p)
  case Nil
  then show ?case by simp
next
  case (Cons e rest)
  show ?case
  proof (cases "fst e = key")
    case True
    with Cons.prems show ?thesis by simp
  next
    case False
    with Cons.prems have s: "bucket_scan key rest (Suc p) = Some q" by simp
    from Cons.IH [OF s] have ih: "Suc p \<le> q" "q - Suc p < length rest"
      "fst (rest ! (q - Suc p)) = key" "\<forall>m < q - Suc p. fst (rest ! m) \<noteq> key" by auto
    then have qp: "q - p = Suc (q - Suc p)" by simp
    show ?thesis using ih False unfolding qp
      by (auto simp: nth_Cons split: nat.splits)
  qed
qed

lemma bucket_scan_append:
  "key \<notin> fst ` set b \<Longrightarrow> bucket_scan key (b @ [(key, obj)]) p = Some (p + length b)"
  by (induction b arbitrary: p) auto

lemma bucket_scan_distinct:
  "distinct (map fst b) \<Longrightarrow> (key, v) \<in> set b \<Longrightarrow>
   \<exists>q. bucket_scan key b p = Some (p + q) \<and> q < length b \<and> b ! q = (key, v)"
proof (induction b arbitrary: p)
  case Nil
  then show ?case by simp
next
  case (Cons e rest)
  show ?case
  proof (cases "fst e = key")
    case True
    with Cons.prems have "e = (key, v)"
      by (cases e) (auto simp: image_iff)
    with True show ?thesis by (intro exI [of _ 0]) simp
  next
    case False
    with Cons.prems have "distinct (map fst rest)" "(key, v) \<in> set rest" by auto
    from Cons.IH [OF this, of "Suc p"] obtain q where
      "bucket_scan key rest (Suc p) = Some (Suc p + q)" "q < length rest" "rest ! q = (key, v)"
      by blast
    with False show ?thesis by (intro exI [of _ "Suc q"]) simp
  qed
qed

lemma erase_loop_absent:
  "(\<forall>q. p \<le> q \<and> q < length (table_f t ! index) \<longrightarrow> fst (table_f t ! index ! q) \<noteq> key) \<Longrightarrow>
   erase_loop key index t (Live p) = Inr t"
proof (induction "length (table_f t ! index) - p" arbitrary: p)
  case 0
  then show ?case by (subst erase_loop.simps) simp
next
  case (Suc d)
  then have lt: "p < length (table_f t ! index)" by simp
  with Suc.prems have ne: "key \<noteq> fst (table_f t ! index ! p)" by auto
  have "erase_loop key index t (Live (Suc p)) = Inr t"
    using Suc.prems Suc.hyps(2) by (intro Suc.hyps(1)) auto
  with lt ne show ?case by (subst erase_loop.simps) simp
qed

lemma erase_loop_present:
  "p \<le> q \<Longrightarrow> q < length (table_f t ! index) \<Longrightarrow> fst (table_f t ! index ! q) = key \<Longrightarrow>
   erase_loop key index t (Live p) = Inl InvalidIterator"
proof (induction "q - p" arbitrary: p)
  case 0
  then show ?case by (subst erase_loop.simps) (simp add: erase_loop.simps(1))
next
  case (Suc d)
  then have lt: "p < length (table_f t ! index)" by simp
  show ?case
  proof (cases "key = fst (table_f t ! index ! p)")
    case True
    with lt show ?thesis by (subst erase_loop.simps) (simp add: erase_loop.simps(1))
  next
    case False
    have "erase_loop key index t (Live (Suc p)) = Inl InvalidIterator"
      using Suc.prems Suc.hyps(2) by (intro Suc.hyps(1)) auto
    with lt False show ?thesis by (subst erase_loop.simps) simp
  qed
qed

lemma erase_loop_Inr: "erase_loop key index t (Live p) = Inr t' \<Longrightarrow> t' = t"
proof (cases "\<exists>q. p \<le> q \<and> q < length (table_f t ! index) \<and> fst (table_f t ! index ! q) = key")
  case True
  assume a: "erase_loop key index t (Live p) = Inr t'"
  from True obtain q where "p \<le> q" "q < length (table_f t ! index)"
    "fst (table_f t ! index ! q) = key" by blast
  from erase_loop_present [OF this] a show ?thesis by simp
next
  case False
  assume a: "erase_loop key index t (Live p) = Inr t'"
  have "erase_loop key index t (Live p) = Inr t"
    using False by (intro erase_loop_absent) auto
  with a show ?thesis by simp
qed

lemma erase_Inr: "erase h t key = Inr t' \<Longrightarrow> t' = t"
  by (auto simp: erase_def Let_def split: if_splits dest: erase_loop_Inr)

section \<open>Properties of insert, find and erase\<close>

lemma set_entries: "set (entries t) = (\<Union>i<length (table_f t). set (table_f t ! i))"
  by (auto simp: entries_def set_conv_nth [of "table_f t"])

lemma index_in_range: "table_shape t \<Longrightarrow> h key mod bucket_count_f t < length (table_f t)"
  by (simp add: table_shape_def)

lemma shape_guards:
  "table_shape t \<Longrightarrow> bucket_count_f t \<noteq> 0 \<and> \<not> length (table_f t) \<le> h key mod bucket_count_f t"
  by (simp add: table_shape_def not_le)

lemma not_in_entries_bucket:
  "key \<notin> fst ` set (entries t) \<Longrightarrow> i < length (table_f t) \<Longrightarrow> key \<notin> fst ` set (table_f t ! i)"
  by (auto simp: set_entries)

lemma insert_fresh:
  assumes "table_shape t" and "key \<notin> fst ` set (table_f t ! (h key mod bucket_count_f t))"
  shows "insert_ht h t key obj =
     Inr (t\<lparr>table_f := (table_f t)[h key mod bucket_count_f t :=
                table_f t ! (h key mod bucket_count_f t) @ [(key, obj)]],
            count_f := count_f t + 1\<rparr>,
          \<lparr>index_f = h key mod bucket_count_f t,
           entry_f = (h key mod bucket_count_f t, length (table_f t ! (h key mod bucket_count_f t)))\<rparr>)"
proof -
  have "bucket_scan key (table_f t ! (h key mod bucket_count_f t)) 0 = None"
    using assms(2) by (simp add: bucket_scan_None)
  then show ?thesis
    using shape_guards [OF assms(1), of h key]
    by (simp add: insert_ht_def Let_def)
qed

lemma insert_found:
  assumes "table_shape t" and "bucket_scan key (table_f t ! (h key mod bucket_count_f t)) 0 = Some p"
  shows "insert_ht h t key obj =
     Inr (t, \<lparr>index_f = h key mod bucket_count_f t, entry_f = (h key mod bucket_count_f t, p)\<rparr>)"
  using assms(2) shape_guards [OF assms(1), of h key]
  by (simp add: insert_ht_def Let_def)

lemma find_found:
  assumes "table_shape t" and "bucket_scan key (table_f t ! (h key mod bucket_count_f t)) 0 = Some p"
  shows "find_ht h t key =
     Inr \<lparr>index_f = h key mod bucket_count_f t, entry_f = (h key mod bucket_count_f t, p)\<rparr>"
  using assms(2) shape_guards [OF assms(1), of h key]
  by (simp add: find_ht_def Let_def)

lemma sum_length_update:
  "i < length xs \<Longrightarrow> sum_list (map length (xs[i := xs ! i @ [x]])) = sum_list (map length xs) + 1"
proof (induction xs arbitrary: i)
  case Nil
  then show ?case by simp
next
  case (Cons a xs)
  then show ?case by (cases i) auto
qed

lemma insert_preserves_inv:
  assumes inv: "table_inv h t" and ins: "insert_ht h t key obj = Inr (t', it)"
  shows "table_inv h t'"
proof -
  let ?i = "h key mod bucket_count_f t"
  let ?b = "table_f t ! ?i"
  from inv have sh: "table_shape t" by (simp add: table_inv_def)
  have ir: "?i < length (table_f t)" by (rule index_in_range [OF sh])
  show ?thesis
  proof (cases "bucket_scan key ?b 0")
    case (Some p)
    from insert_found [of t key h p obj, OF sh Some] ins have "t' = t" by simp
    with inv show ?thesis by simp
  next
    case None
    then have fresh: "key \<notin> fst ` set ?b" by (simp add: bucket_scan_None)
    from insert_fresh [of t key h obj, OF sh fresh] ins
    have t': "t' = t\<lparr>table_f := (table_f t)[?i := ?b @ [(key, obj)]], count_f := count_f t + 1\<rparr>"
      by simp
    have 1: "table_shape t'" using sh by (simp add: t' table_shape_def)
    have 2: "count_f t' = sum_list (map length (table_f t'))"
      using inv ir by (simp add: t' table_inv_def sum_length_update)
    have 3: "entries_placed h t'"
      using inv ir unfolding entries_placed_def table_inv_def t'
      by (auto simp: nth_list_update split: if_splits)
    have 4: "keys_distinct t'"
      using inv ir fresh unfolding keys_distinct_def table_inv_def t' list_all_length
      by (auto simp: nth_list_update)
    from 1 2 3 4 show ?thesis by (simp add: table_inv_def)
  qed
qed

lemma hashtable_inv:
  fixes t :: "('k, 'v) hashtable"
  assumes "hashtable buckets = Inr t" and "0 < buckets"
  shows "table_inv h t"
  using hashtable_Inr [OF assms(1)] assms(2)
  by (simp add: table_inv_def table_shape_def entries_placed_def keys_distinct_def list_all_length)

lemma reachable_inv_or_empty:
  "reachable h t \<Longrightarrow> table_inv h t \<or> (table_f t = [] \<and> bucket_count_f t = 0 \<and> count_f t = 0)"
proof (induction rule: reachable.induct)
  case (reach_ctor buckets t)
  show ?case
  proof (cases "0 < buckets")
    case True
    with reach_ctor show ?thesis by (simp add: hashtable_inv)
  next
    case False
    with hashtable_Inr [OF reach_ctor] show ?thesis by simp
  qed
next
  case (reach_insert t key obj t' it)
  from reach_insert.IH show ?case
  proof
    assume "table_inv h t"
    then show ?thesis using reach_insert.hyps(2) by (auto dest: insert_preserves_inv)
  next
    assume "table_f t = [] \<and> bucket_count_f t = 0 \<and> count_f t = 0"
    with reach_insert.hyps(2) show ?thesis by (simp add: insert_ht_def)
  qed
next
  case (reach_erase t key t')
  from erase_Inr [OF reach_erase.hyps(2)] reach_erase.IH show ?case by simp
qed

lemma erase_absent:
  assumes "table_shape t" and "key \<notin> fst ` set (table_f t ! (h key mod bucket_count_f t))"
  shows "erase h t key = Inr t"
proof -
  have "\<forall>q. q < length (table_f t ! (h key mod bucket_count_f t)) \<longrightarrow>
          fst (table_f t ! (h key mod bucket_count_f t) ! q) \<noteq> key"
    using assms(2) by (metis image_eqI nth_mem)
  then have "erase_loop key (h key mod bucket_count_f t) t (Live 0) = Inr t"
    by (intro erase_loop_absent) simp
  then show ?thesis
    using shape_guards [OF assms(1), of h key]
    by (simp add: erase_def Let_def)
qed

lemma erase_present:
  assumes "table_shape t" and "key \<in> fst ` set (table_f t ! (h key mod bucket_count_f t))"
  shows "erase h t key = Inl InvalidIterator"
proof -
  from assms(2) obtain q where "q < length (table_f t ! (h key mod bucket_count_f t))"
    "fst (table_f t ! (h key mod bucket_count_f t) ! q) = key"
    by (auto simp: in_set_conv_nth)
  then have "erase_loop key (h key mod bucket_count_f t) t (Live 0) = Inl InvalidIterator"
    by (intro erase_loop_present [of 0 q]) auto
  then show ?thesis
    using shape_guards [OF assms(1), of h key]
    by (simp add: erase_def Let_def)
qed


lemma replicate_4: "replicate 4 x = [x, x, x, x]"
  by (simp add: numeral_eq_Suc)

lemma hashtable_4: "hashtable 4 = Inr empty4"
  using hashtable_ok [of 4] by (simp add: empty4_def replicate_4)

lemma insert_quarter:
  "insert_ht (\<lambda>k. k) empty4 5 10 = Inr (quarter_full, \<lparr>index_f = 1, entry_f = (1, 0)\<rparr>)"
  by (simp add: insert_ht_def empty4_def quarter_full_def)

lemma quarter_full_inv: "table_inv (\<lambda>k. k) quarter_full"
  using insert_preserves_inv [OF hashtable_inv [OF hashtable_4] insert_quarter] by simp

lemma quarter_full_shape: "table_shape quarter_full"
  by (simp add: table_shape_def quarter_full_def)

lemma quarter_full_entries: "entries quarter_full = [(5, 10)]"
  by (simp add: entries_def quarter_full_def)

section \<open>Properties of the traversal\<close>

lemma bucket_nodes_step:
  "p < length (table_f t ! i) \<Longrightarrow>
   bucket_nodes t i p = ((i, p), table_f t ! i ! p) # bucket_nodes t i (Suc p)"
  by (simp add: bucket_nodes_def upt_conv_Cons)

lemma bucket_nodes_end: "length (table_f t ! i) \<le> p \<Longrightarrow> bucket_nodes t i p = []"
  by (simp add: bucket_nodes_def)

lemma nodes_from_step:
  "i < length (table_f t) \<Longrightarrow> nodes_from t i = bucket_nodes t i 0 @ nodes_from t (Suc i)"
  by (simp add: nodes_from_def upt_conv_Cons)

lemma nodes_from_end: "length (table_f t) \<le> i \<Longrightarrow> nodes_from t i = []"
  by (simp add: nodes_from_def)

lemma nodes_from_skip:
  "i \<le> j \<Longrightarrow> j \<le> length (table_f t) \<Longrightarrow> (\<forall>m. i \<le> m \<and> m < j \<longrightarrow> table_f t ! m = []) \<Longrightarrow>
   nodes_from t i = nodes_from t j"
proof (induction "j - i" arbitrary: i)
  case 0
  then show ?case by simp
next
  case (Suc d)
  then have lt: "i < j" and e: "table_f t ! i = []" by auto
  have "nodes_from t i = nodes_from t (Suc i)"
    using Suc.prems lt e by (simp add: nodes_from_step bucket_nodes_end)
  also have "\<dots> = nodes_from t j"
    using Suc.prems lt Suc.hyps(2) by (intro Suc.hyps(1)) auto
  finally show ?case .
qed

lemma end_loop_sentinel:
  "table_shape t \<Longrightarrow> idx < length (table_f t) \<Longrightarrow>
   \<exists>e j. end_loop t idx = Inr e \<and> j < length (table_f t) \<and>
          entry_f e = (j, length (table_f t ! j))"
proof (induction idx)
  case 0
  then show ?case
    by (subst end_loop.simps) (auto simp: table_shape_def bucket_count_def)
next
  case (Suc idx)
  show ?case
  proof (cases "table_f t ! Suc idx = []")
    case True
    have "end_loop t (Suc idx) = end_loop t idx"
      using Suc.prems True by (subst end_loop.simps) simp
    with Suc show ?thesis by simp
  next
    case False
    with Suc.prems show ?thesis by (subst end_loop.simps) auto
  qed
qed

lemma end_sentinel:
  assumes "table_shape t"
  shows "\<exists>e j. end_ht t = Inr e \<and> j < length (table_f t) \<and> entry_f e = (j, length (table_f t ! j))"
proof -
  have "bucket_count_f t - 1 < length (table_f t)"
    using assms by (simp add: table_shape_def)
  from end_loop_sentinel [OF assms this] show ?thesis
    using assms by (simp add: end_ht_def bucket_count_def table_shape_def)
qed

lemma end_last_nonempty:
  assumes "table_shape t" and "i < length (table_f t)" and "table_f t ! i \<noteq> []"
    and "\<forall>m. i < m \<and> m < length (table_f t) \<longrightarrow> table_f t ! m = []"
  shows "end_ht t = Inr \<lparr>index_f = i, entry_f = (i, length (table_f t ! i))\<rparr>"
proof -
  have "end_loop t (bucket_count_f t - 1) = Inr \<lparr>index_f = i, entry_f = (i, length (table_f t ! i))\<rparr>"
    using assms by (intro end_loop_nonempty) (auto simp: table_shape_def)
  then show ?thesis
    using assms(1) by (simp add: end_ht_def bucket_count_def table_shape_def)
qed

lemma traverse_step:
  "end_ht t = Inr e \<Longrightarrow> operator_neq it e \<Longrightarrow> operator_deref t it = Inr x \<Longrightarrow>
   operator_increment t it = Inr (it', r) \<Longrightarrow>
   traverse (Suc fuel) t it acc = traverse fuel t it' (acc @ [(entry_f it, x)])"
  by simp

lemma traverse_stop:
  "end_ht t = Inr e \<Longrightarrow> \<not> operator_neq it e \<Longrightarrow> traverse (Suc fuel) t it acc = Some (Inr acc)"
  by simp

lemma increment_within:
  "i < length (table_f t) \<Longrightarrow> Suc p < length (table_f t ! i) \<Longrightarrow>
   operator_increment t \<lparr>index_f = i, entry_f = (i, p)\<rparr> =
     Inr (\<lparr>index_f = i, entry_f = (i, Suc p)\<rparr>, \<lparr>index_f = i, entry_f = (i, Suc p)\<rparr>)"
  by (auto simp: operator_increment_def list_next_def)

lemma increment_last:
  "i < length (table_f t) \<Longrightarrow> Suc p = length (table_f t ! i) \<Longrightarrow>
   operator_increment t \<lparr>index_f = i, entry_f = (i, p)\<rparr> =
     next_bucket t \<lparr>index_f = i, entry_f = (i, Suc p)\<rparr>"
  by (auto simp: operator_increment_def list_next_def)

lemma deref_node:
  "i < length (table_f t) \<Longrightarrow> p < length (table_f t ! i) \<Longrightarrow>
   operator_deref t \<lparr>index_f = i, entry_f = (i, p)\<rparr> = Inr (table_f t ! i ! p)"
  by (simp add: operator_deref_def)

lemma traverse_from:
  "table_shape t \<Longrightarrow> i < length (table_f t) \<Longrightarrow> p < length (table_f t ! i) \<Longrightarrow>
   length (bucket_nodes t i p @ nodes_from t (Suc i)) < fuel \<Longrightarrow>
   traverse fuel t \<lparr>index_f = i, entry_f = (i, p)\<rparr> acc =
     Some (Inr (acc @ bucket_nodes t i p @ nodes_from t (Suc i)))"
proof (induction fuel arbitrary: i p acc)
  case 0
  then show ?case by simp
next
  case (Suc fuel)
  let ?it = "\<lparr>index_f = i, entry_f = (i, p)\<rparr>"
  let ?x = "table_f t ! i ! p"
  from end_sentinel [OF Suc.prems(1)] obtain e j where
    e: "end_ht t = Inr e" "j < length (table_f t)" "entry_f e = (j, length (table_f t ! j))"
    by blast
  have neq: "operator_neq ?it e"
    using e(3) Suc.prems(3) by (auto simp: operator_neq_def operator_eq_def)
  have der: "operator_deref t ?it = Inr ?x"
    by (rule deref_node [OF Suc.prems(2,3)])
  have bn: "bucket_nodes t i p = ((i, p), ?x) # bucket_nodes t i (Suc p)"
    by (rule bucket_nodes_step [OF Suc.prems(3)])
  have ne: "table_f t ! i \<noteq> []" using Suc.prems(3) by auto
  show ?case
  proof (cases "Suc p < length (table_f t ! i)")
    case True
    have inc: "operator_increment t ?it =
        Inr (\<lparr>index_f = i, entry_f = (i, Suc p)\<rparr>, \<lparr>index_f = i, entry_f = (i, Suc p)\<rparr>)"
      by (rule increment_within [OF Suc.prems(2) True])
    have "traverse (Suc fuel) t ?it acc =
        traverse fuel t \<lparr>index_f = i, entry_f = (i, Suc p)\<rparr> (acc @ [(entry_f ?it, ?x)])"
      by (rule traverse_step [OF e(1) neq der inc])
    also have "\<dots> = Some (Inr ((acc @ [(entry_f ?it, ?x)]) @
        bucket_nodes t i (Suc p) @ nodes_from t (Suc i)))"
      using Suc.prems True by (intro Suc.IH) (auto simp: bn)
    finally show ?thesis by (simp add: bn)
  next
    case False
    with Suc.prems(3) have last: "Suc p = length (table_f t ! i)" by simp
    have bn1: "bucket_nodes t i p = [((i, p), ?x)]"
      using last by (simp add: bn bucket_nodes_end)
    have inc0: "operator_increment t ?it = next_bucket t \<lparr>index_f = i, entry_f = (i, Suc p)\<rparr>"
      by (rule increment_last [OF Suc.prems(2) last])
    show ?thesis
    proof (cases "\<exists>n. i < n \<and> n < length (table_f t) \<and> table_f t ! n \<noteq> []")
      case True
      then obtain n where n: "i < n \<and> n < length (table_f t) \<and> table_f t ! n \<noteq> []"
        and least: "\<forall>m<n. \<not> (i < m \<and> m < length (table_f t) \<and> table_f t ! m \<noteq> [])"
        using exists_least_iff [of "\<lambda>n. i < n \<and> n < length (table_f t) \<and> table_f t ! n \<noteq> []"]
        by blast
      from least n have gap: "\<forall>m. i < m \<and> m < n \<longrightarrow> table_f t ! m = []" by auto
      let ?it' = "\<lparr>index_f = n, entry_f = (n, 0)\<rparr>"
      have "next_bucket t \<lparr>index_f = i, entry_f = (i, Suc p)\<rparr> = Inr (?it', ?it')"
        using n gap Suc.prems(1) by (intro next_bucket_found) auto
      with inc0 have inc: "operator_increment t ?it = Inr (?it', ?it')" by simp
      have skip: "nodes_from t (Suc i) = bucket_nodes t n 0 @ nodes_from t (Suc n)"
      proof -
        have "nodes_from t (Suc i) = nodes_from t n"
          using n gap by (intro nodes_from_skip) auto
        then show ?thesis using n by (simp add: nodes_from_step)
      qed
      have "traverse (Suc fuel) t ?it acc = traverse fuel t ?it' (acc @ [(entry_f ?it, ?x)])"
        by (rule traverse_step [OF e(1) neq der inc])
      also have "\<dots> = Some (Inr ((acc @ [(entry_f ?it, ?x)]) @
          bucket_nodes t n 0 @ nodes_from t (Suc n)))"
        using Suc.prems n by (intro Suc.IH) (auto simp: bn1 skip)
      finally show ?thesis by (simp add: bn1 skip)
    next
      case False
      then have gap: "\<forall>m. i < m \<and> m < length (table_f t) \<longrightarrow> table_f t ! m = []" by auto
      have e': "end_ht t = Inr \<lparr>index_f = i, entry_f = (i, length (table_f t ! i))\<rparr>"
        by (rule end_last_nonempty [OF Suc.prems(1,2) ne gap])
      let ?it' = "\<lparr>index_f = bucket_count_f t, entry_f = (i, Suc p)\<rparr>"
      have "next_bucket t \<lparr>index_f = i, entry_f = (i, Suc p)\<rparr> =
          (case end_ht t of Inl x \<Rightarrow> Inl x
           | Inr x \<Rightarrow> Inr (\<lparr>index_f = i, entry_f = (i, Suc p)\<rparr>\<lparr>index_f := bucket_count_f t\<rparr>, x))"
        using gap Suc.prems(1,2) by (intro next_bucket_none) (auto simp: table_shape_def)
      with inc0 e' have inc: "operator_increment t ?it =
          Inr (?it', \<lparr>index_f = i, entry_f = (i, length (table_f t ! i))\<rparr>)" by simp
      have nf: "nodes_from t (Suc i) = []"
      proof -
        have "nodes_from t (Suc i) = nodes_from t (length (table_f t))"
          using gap Suc.prems(2) by (intro nodes_from_skip) auto
        then show ?thesis by (simp add: nodes_from_end)
      qed
      from Suc.prems(4) obtain f where f: "fuel = Suc f"
        by (cases fuel) (auto simp: bn1 nf)
      have stop: "\<not> operator_neq ?it' \<lparr>index_f = i, entry_f = (i, length (table_f t ! i))\<rparr>"
        using last by (simp add: operator_neq_def operator_eq_def)
      have "traverse (Suc fuel) t ?it acc = traverse fuel t ?it' (acc @ [(entry_f ?it, ?x)])"
        using e' by (intro traverse_step [OF e(1) neq der inc])
      also have "\<dots> = Some (Inr (acc @ [(entry_f ?it, ?x)]))"
        unfolding f by (rule traverse_stop [OF e' stop])
      finally show ?thesis by (simp add: bn1 nf)
    qed
  qed
qed

lemma iterate_all:
  assumes "table_shape t" and "length (nodes_from t 0) < fuel"
  shows "iterate fuel t = Some (Inr (nodes_from t 0))"
proof (cases "\<exists>n. n < length (table_f t) \<and> table_f t ! n \<noteq> []")
  case True
  then obtain n where n: "n < length (table_f t) \<and> table_f t ! n \<noteq> []"
    and least: "\<forall>m<n. \<not> (m < length (table_f t) \<and> table_f t ! m \<noteq> [])"
    using exists_least_iff [of "\<lambda>n. n < length (table_f t) \<and> table_f t ! n \<noteq> []"]
    by blast
  from least n have gap: "\<forall>m. 0 \<le> m \<and> m < n \<longrightarrow> table_f t ! m = []" by auto
  have b: "begin_ht t = Inr \<lparr>index_f = n, entry_f = (n, 0)\<rparr>"
    unfolding begin_ht_def using n gap assms(1) by (intro begin_loop_nonempty) auto
  have skip: "nodes_from t 0 = bucket_nodes t n 0 @ nodes_from t (Suc n)"
  proof -
    have "nodes_from t 0 = nodes_from t n"
      using n gap by (intro nodes_from_skip) auto
    then show ?thesis using n by (simp add: nodes_from_step)
  qed
  have "traverse fuel t \<lparr>index_f = n, entry_f = (n, 0)\<rparr> [] =
      Some (Inr ([] @ bucket_nodes t n 0 @ nodes_from t (Suc n)))"
    using assms n by (intro traverse_from) (auto simp: skip)
  then show ?thesis by (simp add: iterate_def b skip)
next
  case False
  then have ae: "all_empty t" by (auto simp: all_empty_def list_all_length)
  have nf: "nodes_from t 0 = []"
  proof -
    have "nodes_from t 0 = nodes_from t (length (table_f t))"
      using False by (intro nodes_from_skip) auto
    then show ?thesis by (simp add: nodes_from_end)
  qed
  from assms(2) obtain f where f: "fuel = Suc f" by (cases fuel) auto
  have "traverse (Suc f) t \<lparr>index_f = bucket_count_f t - 1, entry_f = (bucket_count_f t - 1, 0)\<rparr> []
      = Some (Inr [])"
    by (rule traverse_stop [OF end_all_empty [OF assms(1) ae]])
       (simp add: operator_neq_def operator_eq_def)
  then show ?thesis
    by (simp add: iterate_def begin_all_empty [OF assms(1) ae] f nf)
qed

lemma map_snd_bucket_nodes: "map snd (bucket_nodes t j 0) = table_f t ! j"
  by (simp add: bucket_nodes_def o_def map_nth)

lemma map_fst_bucket_nodes: "map fst (bucket_nodes t j 0) = map (Pair j) [0..<length (table_f t ! j)]"
  by (simp add: bucket_nodes_def o_def)

lemma map_snd_nodes: "map snd (nodes_from t 0) = entries t"
proof -
  have "map snd (nodes_from t 0) = concat (map (\<lambda>j. table_f t ! j) [0..<length (table_f t)])"
    by (simp add: nodes_from_def map_concat o_def map_snd_bucket_nodes)
  then show ?thesis by (simp add: entries_def map_nth)
qed

lemma length_nodes: "length (nodes_from t 0) = sum_list (map length (table_f t))"
proof -
  have "length (nodes_from t 0) = length (map snd (nodes_from t 0))" by simp
  also have "\<dots> = length (concat (table_f t))" by (simp only: map_snd_nodes entries_def)
  finally show ?thesis by (simp add: length_concat)
qed

lemma distinct_concat_pairs:
  "distinct js \<Longrightarrow> distinct (concat (map (\<lambda>j. map (Pair j) [0..<f j]) js))"
proof (induction js)
  case Nil
  then show ?case by simp
next
  case (Cons j js)
  then show ?case by (auto simp: distinct_map inj_on_def)
qed

lemma map_fst_nodes:
  "map fst (nodes_from t 0) =
   concat (map (\<lambda>j. map (Pair j) [0..<length (table_f t ! j)]) [0..<length (table_f t)])"
  by (simp add: nodes_from_def map_concat o_def map_fst_bucket_nodes)

lemma distinct_positions: "distinct (map fst (nodes_from t 0))"
  unfolding map_fst_nodes by (rule distinct_concat_pairs) simp

lemma set_positions:
  "set (map fst (nodes_from t 0)) = {(i, p). i < length (table_f t) \<and> p < length (table_f t ! i)}"
  unfolding map_fst_nodes by auto

lemma drop_as_map_nth: "drop k xs = map (\<lambda>j. xs ! j) [k..<length xs]"
proof -
  have "drop k xs = drop k (map (\<lambda>j. xs ! j) [0..<length xs])" by (simp add: map_nth)
  also have "\<dots> = map (\<lambda>j. xs ! j) [k..<length xs]" by (simp add: drop_map)
  finally show ?thesis .
qed

lemma set_concat_drop: "set (concat (drop k xs)) = (\<Union>j\<in>{k..<length xs}. set (xs ! j))"
  by (subst drop_as_map_nth) auto

lemma distinct_keys_drop:
  assumes "table_inv h t"
  shows "distinct (map fst (concat (drop i (table_f t))))"
proof (induction "length (table_f t) - i" arbitrary: i)
  case 0
  then show ?case by simp
next
  case (Suc d)
  then have lt: "i < length (table_f t)" by simp
  have ih: "distinct (map fst (concat (drop (Suc i) (table_f t))))"
    using Suc.hyps(2) by (intro Suc.hyps(1)) simp
  have d: "distinct (map fst (table_f t ! i))"
    using assms lt by (simp add: table_inv_def keys_distinct_def list_all_length)
  have sep: "\<forall>a \<in> set (table_f t ! i). \<forall>b \<in> set (concat (drop (Suc i) (table_f t))). fst a \<noteq> fst b"
  proof (intro ballI notI)
    fix a b
    assume a: "a \<in> set (table_f t ! i)"
      and b: "b \<in> set (concat (drop (Suc i) (table_f t)))" and ab: "fst a = fst b"
    from b obtain j where j: "Suc i \<le> j" "j < length (table_f t)" "b \<in> set (table_f t ! j)"
      unfolding set_concat_drop by auto
    from assms a lt have "h (fst a) mod bucket_count_f t = i"
      by (auto simp: table_inv_def entries_placed_def)
    moreover from assms j have "h (fst b) mod bucket_count_f t = j"
      by (auto simp: table_inv_def entries_placed_def)
    ultimately show False using ab j(1) by simp
  qed
  then have disj: "fst ` set (table_f t ! i) \<inter> fst ` set (concat (drop (Suc i) (table_f t))) = {}"
    by blast
  have "drop i (table_f t) = table_f t ! i # drop (Suc i) (table_f t)"
    using lt by (simp add: Cons_nth_drop_Suc)
  then show ?case using ih d disj by simp
qed

lemma distinct_keys: "table_inv h t \<Longrightarrow> distinct (map fst (entries t))"
  using distinct_keys_drop [of h t 0] by (simp add: entries_def)

lemma insert_defined:
  "table_shape t \<Longrightarrow> \<exists>t' it. insert_ht h t key obj = Inr (t', it)"
  using shape_guards [of t h key]
  by (auto simp: insert_ht_def Let_def split: option.splits)

lemma insert_keys:
  assumes sh: "table_shape t" and ins: "insert_ht h t key obj = Inr (t', it)"
  shows "fst ` set (entries t') = insert key (fst ` set (entries t))"
proof -
  let ?i = "h key mod bucket_count_f t"
  let ?b = "table_f t ! ?i"
  have ir: "?i < length (table_f t)" by (rule index_in_range [OF sh])
  show ?thesis
  proof (cases "bucket_scan key ?b 0")
    case (Some p)
    from insert_found [of t key h p obj, OF sh Some] ins have t': "t' = t" by simp
    from Some have "key \<in> fst ` set ?b"
      using bucket_scan_None [of key ?b 0] by auto
    with ir have "key \<in> fst ` set (entries t)"
      by (auto simp: set_entries)
    with t' show ?thesis by auto
  next
    case None
    then have fresh: "key \<notin> fst ` set ?b" by (simp add: bucket_scan_None)
    from insert_fresh [of t key h obj, OF sh fresh] ins
    have t': "t' = t\<lparr>table_f := (table_f t)[?i := ?b @ [(key, obj)]], count_f := count_f t + 1\<rparr>"
      by simp
    have "set (entries t') = insert (key, obj) (set (entries t))"
      using ir unfolding t' set_entries
      by (auto simp: nth_list_update split: if_splits)
    then show ?thesis by simp
  qed
qed

lemma insert_all_inv:
  "table_inv h t \<Longrightarrow>
   \<exists>t'. insert_all h t kvs = Inr t' \<and> table_inv h t' \<and>
        fst ` set (entries t') = fst ` set (entries t) \<union> fst ` set kvs"
proof (induction kvs arbitrary: t)
  case Nil
  then show ?case by simp
next
  case (Cons kv kvs)
  from Cons.prems have sh: "table_shape t" by (simp add: table_inv_def)
  from insert_defined [OF sh, of h "fst kv" "snd kv"] obtain t1 it where
    ins: "insert_ht h t (fst kv) (snd kv) = Inr (t1, it)" by blast
  have inv1: "table_inv h t1" by (rule insert_preserves_inv [OF Cons.prems ins])
  have k1: "fst ` set (entries t1) = insert (fst kv) (fst ` set (entries t))"
    by (rule insert_keys [OF sh ins])
  from Cons.IH [OF inv1] obtain t' where
    t': "insert_all h t1 kvs = Inr t'" "table_inv h t'"
        "fst ` set (entries t') = fst ` set (entries t1) \<union> fst ` set kvs" by blast
  have "insert_all h t (kv # kvs) = Inr t'" using ins t'(1) by simp
  moreover have "fst ` set (entries t') = fst ` set (entries t) \<union> fst ` set (kv # kvs)"
    using t'(3) k1 by auto
  ultimately show ?case using t'(2) by blast
qed

lemma build_inv:
  fixes kvs :: "('k \<times> 'v) list"
  assumes "0 < buckets" and "buckets \<le> 2147483647"
  shows "\<exists>t. build h buckets kvs = Inr t \<and> table_inv h t \<and>
            fst ` set (entries t) = fst ` set kvs"
proof -
  let ?t0 = "\<lparr>table_f = replicate buckets [], bucket_count_f = buckets, count_f = 0\<rparr>
              :: ('k, 'v) hashtable"
  have c: "hashtable buckets = Inr ?t0" by (rule hashtable_ok [OF assms(2)])
  have inv0: "table_inv h ?t0" by (rule hashtable_inv [OF c assms(1)])
  have e0: "entries ?t0 = []" by (simp add: entries_def)
  from insert_all_inv [OF inv0, of kvs] obtain t where
    "insert_all h ?t0 kvs = Inr t" "table_inv h t"
    "fst ` set (entries t) = fst ` set (entries ?t0) \<union> fst ` set kvs" by blast
  then show ?thesis by (auto simp: build_def c e0)
qed


lemma build_three:
  "build (\<lambda>k. k) 4 [(5, 11), (9, 12), (7, 13)] = Inr three_in_four"
  by (simp add: build_def hashtable_4 insert_ht_def empty4_def three_in_four_def)


lemma iterate_three:
  "iterate 4 three_in_four =
     Some (Inr [((1, 0), (5, 11)), ((1, 1), (9, 12)), ((3, 0), (7, 13))])"
  by code_simp

lemma iterate_three_short: "iterate 3 three_in_four = None"
  by code_simp

section \<open>Cursors on a table without entries\<close>

text \<open>
  Claim C7.  On a table that has at least one bucket and whose buckets are all empty
  (so that its size is 0), \<open>begin()\<close> and \<open>end()\<close> both return, and the two cursors
  compare equal under \<open>operator==\<close>.
\<close>

theorem begin_eq_end_on_empty_table:
  assumes "table_shape t" and "all_empty t"
  shows "\<exists>b e. begin_ht t = Inr b \<and> end_ht t = Inr e \<and> operator_eq b e"
  using begin_all_empty [OF assms] end_all_empty [OF assms]
  by (simp add: operator_eq_def)

theorem begin_eq_end_on_empty_table_witness:
  "table_shape empty3 \<and> all_empty empty3 \<and>
   (\<exists>b e. begin_ht empty3 = Inr b \<and> end_ht empty3 = Inr e \<and> operator_eq b e)"
  using begin_eq_end_on_empty_table [OF empty3_shape empty3_all_empty]
    empty3_shape empty3_all_empty
  by simp

text \<open>
  Claim C10.  On a table that has at least one bucket and whose buckets are all empty,
  \<open>operator++\<close> applied to the cursor \<open>end()\<close> returns: the scan over the empty buckets
  stops when the index reaches \<open>bucket_count()\<close>.  Both the cursor it returns and the
  advanced cursor itself compare equal to \<open>end()\<close>.
\<close>

theorem increment_end_on_empty_table:
  assumes "table_shape t" and "all_empty t"
  shows "\<exists>e this' r. end_ht t = Inr e \<and> operator_increment t e = Inr (this', r) \<and>
           operator_eq r e \<and> operator_eq this' e"
proof -
  let ?e = "\<lparr>index_f = 0, entry_f = (bucket_count_f t - 1, 0)\<rparr>"
  have e: "end_ht t = Inr ?e" by (rule end_all_empty [OF assms])
  have len: "0 < length (table_f t)" using assms(1) by (simp add: table_shape_def)
  have "next_bucket t ?e = (case end_ht t of Inl x \<Rightarrow> Inl x
          | Inr x \<Rightarrow> Inr (?e\<lparr>index_f := bucket_count_f t\<rparr>, x))"
    using assms by (intro next_bucket_none) (auto simp: table_shape_def all_empty_nth)
  then have "operator_increment t ?e = Inr (?e\<lparr>index_f := bucket_count_f t\<rparr>, ?e)"
    using e len assms by (simp add: operator_increment_def all_empty_nth)
  with e show ?thesis by (simp add: operator_eq_def)
qed

theorem increment_end_on_empty_table_witness:
  "table_shape empty3 \<and> all_empty empty3 \<and>
   (\<exists>e this' r. end_ht empty3 = Inr e \<and> operator_increment empty3 e = Inr (this', r) \<and>
      operator_eq r e \<and> operator_eq this' e)"
  using increment_end_on_empty_table [OF empty3_shape empty3_all_empty]
    empty3_shape empty3_all_empty
  by simp

section \<open>Equality of cursors\<close>

text \<open>
  Claim C8.  Two cursors, of either iterator class, compare equal exactly when their
  list positions \<open>entry_\<close> are equal.  The recorded bucket indices \<open>index_\<close> play no part:
  changing them does not change the outcome, and cursors with different indices and
  the same position are equal.
\<close>

theorem cursor_equality_is_position_equality:
  "(operator_eq a b \<longleftrightarrow> entry_f a = entry_f b) \<and>
   (const_operator_eq a b \<longleftrightarrow> entry_f a = entry_f b) \<and>
   (operator_eq (a\<lparr>index_f := i\<rparr>) (b\<lparr>index_f := j\<rparr>) \<longleftrightarrow> operator_eq a b) \<and>
   (index_f a \<noteq> index_f b \<and> entry_f a = entry_f b \<longrightarrow>
      operator_eq a b \<and> const_operator_eq a b)"
  by (simp add: operator_eq_def const_operator_eq_def)

text \<open>
  On three empty buckets \<open>begin()\<close> records index 2 and \<open>end()\<close> records index 0, both
  with the sentinel of bucket 2.
\<close>

theorem cursor_equality_is_position_equality_witness:
  "begin_ht empty3 = Inr \<lparr>index_f = 2, entry_f = (2, 0)\<rparr> \<and>
   end_ht empty3 = Inr \<lparr>index_f = 0, entry_f = (2, 0)\<rparr> \<and>
   index_f \<lparr>index_f = 2, entry_f = (2, 0)\<rparr> \<noteq> index_f \<lparr>index_f = 0, entry_f = (2, 0)\<rparr> \<and>
   entry_f \<lparr>index_f = 2, entry_f = (2, 0)\<rparr> = entry_f \<lparr>index_f = 0, entry_f = (2, 0)\<rparr> \<and>
   operator_eq \<lparr>index_f = 2, entry_f = (2, 0)\<rparr> \<lparr>index_f = 0, entry_f = (2, 0)\<rparr> \<and>
   const_operator_eq \<lparr>index_f = 2, entry_f = (2, 0)\<rparr> \<lparr>index_f = 0, entry_f = (2, 0)\<rparr>"
  using cursor_equality_is_position_equality
          [of "\<lparr>index_f = 2, entry_f = (2, 0)\<rparr>" "\<lparr>index_f = 0, entry_f = (2, 0)\<rparr>" 0 0]
    begin_all_empty [OF empty3_shape empty3_all_empty]
    end_all_empty [OF empty3_shape empty3_all_empty]
  by (simp add: empty3_def)

section \<open>Insertion\<close>

text \<open>
  Claim C6.  Let the table have \<open>bucket_count_ \<ge> 1\<close> buckets and let \<open>key\<close> be the key of
  none of its entries.  Then \<open>insert(key, obj)\<close> returns; the new table differs from the
  old one in that \<open>(key, obj)\<close> is appended to the bucket at index
  \<open>hash(key) mod bucket_count\<close> and the size is larger by exactly 1; the cursor returned
  points at the new last node of that bucket and dereferences to \<open>(key, obj)\<close>; and
  afterwards \<open>find(key)\<close> returns that cursor, so that \<open>at(key)\<close> yields \<open>obj\<close>.
\<close>

theorem insert_new_key:
  assumes "table_shape t" and "key \<notin> fst ` set (entries t)"
  shows "\<exists>t' it. insert_ht h t key obj = Inr (t', it) \<and>
     table_f t' = (table_f t)[h key mod bucket_count t :=
                     table_f t ! (h key mod bucket_count t) @ [(key, obj)]] \<and>
     bucket_count t' = bucket_count t \<and>
     count t' = count t + 1 \<and>
     index_f it = h key mod bucket_count t \<and>
     entry_f it = (h key mod bucket_count t, length (table_f t ! (h key mod bucket_count t))) \<and>
     operator_deref t' it = Inr (key, obj) \<and>
     find_ht h t' key = Inr it \<and>
     at_key h t' key = Inr obj"
proof -
  let ?i = "h key mod bucket_count_f t"
  let ?b = "table_f t ! ?i"
  let ?t' = "t\<lparr>table_f := (table_f t)[?i := ?b @ [(key, obj)]], count_f := count_f t + 1\<rparr>"
  let ?it = "\<lparr>index_f = ?i, entry_f = (?i, length ?b)\<rparr>"
  have ir: "?i < length (table_f t)" by (rule index_in_range [OF assms(1)])
  have fresh: "key \<notin> fst ` set ?b" by (rule not_in_entries_bucket [OF assms(2) ir])
  have ins: "insert_ht h t key obj = Inr (?t', ?it)" by (rule insert_fresh [of t key h obj, OF assms(1) fresh])
  have sh': "table_shape ?t'" using assms(1) by (simp add: table_shape_def)
  have b': "table_f ?t' ! (h key mod bucket_count_f ?t') = ?b @ [(key, obj)]"
    using ir by simp
  have scan: "bucket_scan key (table_f ?t' ! (h key mod bucket_count_f ?t')) 0 = Some (length ?b)"
    unfolding b' using bucket_scan_append [OF fresh, of obj 0] by simp
  have fnd: "find_ht h ?t' key = Inr ?it"
    using find_found [of ?t' key h "length ?b", OF sh' scan] by simp
  have der: "operator_deref ?t' ?it = Inr (key, obj)"
    using ir by (simp add: operator_deref_def)
  have atk: "at_key h ?t' key = Inr obj"
    by (simp only: at_key_def fnd der sum.case snd_conv)
  show ?thesis
    using ins fnd der atk by (simp add: bucket_count_def count_def)
qed

theorem insert_new_key_witness:
  "table_shape quarter_full \<and> (6::nat) \<notin> fst ` set (entries quarter_full) \<and>
   (\<exists>t' it. insert_ht (\<lambda>k. k) quarter_full 6 (3::nat) = Inr (t', it) \<and>
      table_f t' = [[], [(5, 10)], [(6, 3)], []] \<and>
      count t' = 2 \<and> entry_f it = (2, 0) \<and> at_key (\<lambda>k. k) t' 6 = Inr 3)"
proof -
  have h: "(6::nat) \<notin> fst ` set (entries quarter_full)"
    by (simp add: quarter_full_entries)
  from insert_new_key [OF quarter_full_shape h, of "\<lambda>k. k" 3]
  obtain t' it where r: "insert_ht (\<lambda>k. k) quarter_full 6 (3::nat) = Inr (t', it)"
    "table_f t' = (table_f quarter_full)[6 mod bucket_count quarter_full :=
        table_f quarter_full ! (6 mod bucket_count quarter_full) @ [(6, 3)]]"
    "count t' = count quarter_full + 1"
    "entry_f it = (6 mod bucket_count quarter_full,
        length (table_f quarter_full ! (6 mod bucket_count quarter_full)))"
    "at_key (\<lambda>k. k) t' 6 = Inr 3"
    by blast
  have m: "6 mod bucket_count quarter_full = 2"
    by (simp add: bucket_count_def quarter_full_def)
  have 1: "table_f t' = [[], [(5, 10)], [(6, 3)], []]"
    unfolding r(2) m by (simp add: quarter_full_def)
  have 2: "count t' = 2"
    unfolding r(3) by (simp add: count_def quarter_full_def)
  have 3: "entry_f it = (2, 0)"
    unfolding r(4) m by (simp add: quarter_full_def)
  from quarter_full_shape h r(1) 1 2 3 r(5) show ?thesis by blast
qed

text \<open>
  Claim C2.  Let the table satisfy the invariants and hold the entry \<open>(key, v0)\<close>.  Then
  \<open>insert(key, v1)\<close> returns the table unchanged, so the size is unchanged, together
  with a cursor that dereferences to the existing entry \<open>(key, v0)\<close>; afterwards
  \<open>find(key)\<close> returns that cursor and \<open>at(key)\<close> still yields \<open>v0\<close>.
\<close>

theorem insert_existing_key:
  assumes "table_inv h t" and "(key, v0) \<in> set (entries t)"
  shows "\<exists>t' it. insert_ht h t key v1 = Inr (t', it) \<and>
     t' = t \<and> count t' = count t \<and>
     operator_deref t' it = Inr (key, v0) \<and>
     find_ht h t' key = Inr it \<and>
     at_key h t' key = Inr v0"
proof -
  let ?i = "h key mod bucket_count_f t"
  let ?b = "table_f t ! ?i"
  from assms(1) have sh: "table_shape t" by (simp add: table_inv_def)
  have ir: "?i < length (table_f t)" by (rule index_in_range [OF sh])
  from assms(2) obtain i where i: "i < length (table_f t)" "(key, v0) \<in> set (table_f t ! i)"
    by (auto simp: set_entries)
  with assms(1) have "h key mod bucket_count_f t = i"
    by (fastforce simp: table_inv_def entries_placed_def)
  with i have mem: "(key, v0) \<in> set ?b" by simp
  have dist: "distinct (map fst ?b)"
    using assms(1) ir by (simp add: table_inv_def keys_distinct_def list_all_length)
  from bucket_scan_distinct [OF dist mem, of 0] obtain q where
    q: "bucket_scan key ?b 0 = Some q" "q < length ?b" "?b ! q = (key, v0)" by auto
  let ?it = "\<lparr>index_f = ?i, entry_f = (?i, q)\<rparr>"
  have ins: "insert_ht h t key v1 = Inr (t, ?it)" by (rule insert_found [of t key h q v1, OF sh q(1)])
  have fnd: "find_ht h t key = Inr ?it" by (rule find_found [of t key h q, OF sh q(1)])
  have der: "operator_deref t ?it = Inr (key, v0)"
    using ir q by (simp add: operator_deref_def)
  have atk: "at_key h t key = Inr v0"
    by (simp add: at_key_def fnd der)
  show ?thesis using ins fnd der atk by simp
qed

theorem insert_existing_key_witness:
  "table_inv (\<lambda>k. k) quarter_full \<and> (5, 10) \<in> set (entries quarter_full) \<and>
   (\<exists>t' it. insert_ht (\<lambda>k. k) quarter_full 5 (99::nat) = Inr (t', it) \<and>
      t' = quarter_full \<and> count t' = count quarter_full \<and>
      operator_deref t' it = Inr (5, 10) \<and>
      find_ht (\<lambda>k. k) t' 5 = Inr it \<and>
      at_key (\<lambda>k. k) t' 5 = Inr 10)"
proof -
  have h: "(5, 10) \<in> set (entries quarter_full)"
    by (simp add: quarter_full_entries)
  from insert_existing_key [OF quarter_full_inv h, of 99] quarter_full_inv h
  show ?thesis by blast
qed

section \<open>Erasure\<close>

text \<open>
  Claim C5.  Let the table have \<open>bucket_count_ \<ge> 1\<close> buckets and let \<open>key\<close> be the key of
  none of its entries.  Then \<open>erase(key)\<close> returns without an error and the table it
  leaves is the table it was given: same size, same buckets, same entries.
\<close>

theorem erase_absent_key:
  assumes "table_shape t" and "key \<notin> fst ` set (entries t)"
  shows "erase h t key = Inr t"
  using assms index_in_range [OF assms(1), of h key]
  by (intro erase_absent not_in_entries_bucket)

theorem erase_absent_key_witness:
  "table_shape quarter_full \<and> (2::nat) \<notin> fst ` set (entries quarter_full) \<and>
   erase (\<lambda>k. k) quarter_full 2 = Inr quarter_full"
proof -
  have h: "(2::nat) \<notin> fst ` set (entries quarter_full)"
    by (simp add: quarter_full_entries)
  from erase_absent_key [OF quarter_full_shape h, of "\<lambda>k. k"] quarter_full_shape h
  show ?thesis by simp
qed

text \<open>
  Claim C4 does not hold of the code.  A table of one bucket that holds the single
  entry \<open>(5, 7)\<close>, as \<open>insert(5, 7)\<close> on \<open>hashtable(1)\<close> builds it, finds key 5; the call
  \<open>erase(5)\<close> unlinks the node, decrements \<open>count_\<close> and then increments the iterator of
  the node it has just erased, which is undefined.  By \<open>erase_present\<close> the same happens
  for every key that is present.
\<close>

theorem erase_present_key_undefined:
  "build (\<lambda>k. k) 1 [(5, 7)] = Inr one_entry \<and>
   contains_key (\<lambda>k. k) one_entry 5 = Inr True \<and>
   at_key (\<lambda>k. k) one_entry 5 = Inr 7 \<and>
   erase (\<lambda>k. k) one_entry 5 = Inl InvalidIterator"
proof -
  have c: "hashtable 1 = (Inr \<lparr>table_f = [[]], bucket_count_f = 1, count_f = 0\<rparr>
             :: error + (nat, nat) hashtable)"
    using hashtable_ok [of 1] by simp
  have b: "build (\<lambda>k. k) 1 [(5, 7)] = Inr one_entry"
    unfolding build_def c by (simp add: insert_ht_def one_entry_def)
  have a: "at_key (\<lambda>k. k) one_entry 5 = Inr 7"
    by (simp add: at_key_def find_ht_def operator_deref_def one_entry_def)
  have c: "contains_key (\<lambda>k. k) one_entry 5 = Inr True"
    by (simp add: contains_key_def one_entry_def)
  have sh: "table_shape one_entry" by (simp add: table_shape_def one_entry_def)
  have e: "erase (\<lambda>k. k) one_entry 5 = Inl InvalidIterator"
    by (intro erase_present sh) (simp add: one_entry_def)
  from b c a e show ?thesis by simp
qed

section \<open>Load factor\<close>

text \<open>
  Claim C3 does not hold of the code.  With one entry in four buckets \<open>load_factor()\<close>
  returns 0, the truncated quotient of the two counters, where the quotient of the
  real numbers is one quarter.
\<close>

theorem load_factor_truncates:
  "build (\<lambda>k. k) 4 [(5, 10)] = Inr quarter_full \<and>
   count quarter_full = 1 \<and> bucket_count quarter_full = 4 \<and>
   load_factor quarter_full = Inr 0 \<and>
   real (count quarter_full) / real (bucket_count quarter_full) = 1 / 4"
proof -
  have b: "build (\<lambda>k. k) 4 [(5, 10)] = Inr quarter_full"
    by (simp add: build_def hashtable_4 insert_quarter)
  have c: "count quarter_full = 1" "bucket_count quarter_full = 4"
    by (simp_all add: count_def bucket_count_def quarter_full_def)
  have l: "load_factor quarter_full = Inr 0"
    by (simp add: load_factor_def quarter_full_def)
  from b c l show ?thesis by simp
qed

section \<open>Invariants of reachable tables\<close>

text \<open>
  Claim C9.  In every table that the constructor followed by any sequence of returning
  \<open>insert\<close> and \<open>erase\<close> calls produces, \<open>count()\<close> is the sum of the lengths of the
  buckets, and every entry lies in the bucket at index \<open>hash(key) mod bucket_count\<close>.
\<close>

theorem reachable_invariants:
  assumes "reachable h t"
  shows "count t = sum_list (map length (table_f t)) \<and> entries_placed h t"
  using reachable_inv_or_empty [OF assms]
  by (auto simp: table_inv_def count_def entries_placed_def)

theorem reachable_invariants_witness:
  "reachable (\<lambda>k. k) quarter_full \<and>
   count quarter_full = sum_list (map length (table_f quarter_full)) \<and>
   entries_placed (\<lambda>k. k) quarter_full"
proof -
  have "reachable (\<lambda>k. k) empty4"
    by (rule reach_ctor [OF hashtable_4])
  then have "reachable (\<lambda>k. k) quarter_full"
    by (rule reach_insert [OF _ insert_quarter])
  moreover have "erase (\<lambda>k. k) quarter_full 2 = Inr quarter_full"
    by (intro erase_absent quarter_full_shape) (simp add: quarter_full_def)
  ultimately have r: "reachable (\<lambda>k. k) quarter_full"
    by (rule reach_erase)
  from reachable_invariants [OF r] r show ?thesis by simp
qed

section \<open>Iteration over the whole table\<close>

text \<open>
  Claim C1.  Take any table built by the constructor with at least one bucket followed
  by any sequence of \<open>insert\<close> calls, whatever buckets the keys hash to.  The loop
  \<open>for (it = begin(); it != end(); ++it)\<close> then terminates after exactly \<open>count()\<close>
  visits, for every iteration bound above \<open>count()\<close>.  The list positions it visits are
  pairwise different and are exactly the positions of the nodes of the table, so every
  entry is visited exactly once; the entries visited are the entries of the buckets in
  bucket order; no key is visited twice; and the keys visited are exactly the keys
  that were inserted.
\<close>

theorem traversal_visits_each_entry_once:
  fixes kvs :: "('k \<times> 'v) list"
  assumes "0 < buckets" and "buckets \<le> 2147483647"
  shows "\<exists>t vis. build h buckets kvs = Inr t \<and>
           (\<forall>fuel. count t < fuel \<longrightarrow> iterate fuel t = Some (Inr vis)) \<and>
           length vis = count t \<and>
           distinct (map fst vis) \<and>
           set (map fst vis) = {(i, p). i < bucket_count t \<and> p < length (table_f t ! i)} \<and>
           map snd vis = entries t \<and>
           distinct (map fst (map snd vis)) \<and>
           fst ` set (map snd vis) = fst ` set kvs"
proof -
  from build_inv [OF assms, of h kvs] obtain t where
    t: "build h buckets kvs = Inr t" "table_inv h t" "fst ` set (entries t) = fst ` set kvs"
    by blast
  from t(2) have sh: "table_shape t" and cnt: "count_f t = sum_list (map length (table_f t))"
    by (simp_all add: table_inv_def)
  let ?vis = "nodes_from t 0"
  have len: "length ?vis = count t" by (simp add: length_nodes cnt count_def)
  have it: "\<forall>fuel. count t < fuel \<longrightarrow> iterate fuel t = Some (Inr ?vis)"
    using iterate_all [OF sh] len by simp
  have pos: "set (map fst ?vis) = {(i, p). i < bucket_count t \<and> p < length (table_f t ! i)}"
    using sh unfolding set_positions by (simp add: table_shape_def bucket_count_def)
  have dk: "distinct (map fst (map snd ?vis))"
    unfolding map_snd_nodes by (rule distinct_keys [OF t(2)])
  have ks: "fst ` set (map snd ?vis) = fst ` set kvs"
    unfolding map_snd_nodes by (rule t(3))
  from t(1) it len distinct_positions [of t] pos map_snd_nodes [of t] dk ks
  show ?thesis by blast
qed

theorem traversal_visits_each_entry_once_witness:
  "(0::nat) < 4 \<and> (4::nat) \<le> 2147483647 \<and>
   (\<exists>t vis. build (\<lambda>k. k) 4 [(5, 11), (9, 12), (7, 13)] = Inr t \<and> t = three_in_four \<and>
      iterate 4 t = Some (Inr vis) \<and> length vis = 3 \<and> distinct (map fst vis) \<and>
      vis = [((1, 0), (5, 11)), ((1, 1), (9, 12)), ((3, 0), (7, 13))] \<and>
      map snd vis = [(5, 11), (9, 12), (7, 13)] \<and>
      fst ` set (map snd vis) = {5, 9, 7})"
proof -
  let ?kvs = "[(5, 11), (9, 12), (7, 13)] :: (nat \<times> nat) list"
  have h1: "(0::nat) < 4" and h2: "(4::nat) \<le> 2147483647" by simp_all
  from traversal_visits_each_entry_once [OF h1 h2, of "\<lambda>k. k" ?kvs]
  obtain t vis where r: "build (\<lambda>k. k) 4 ?kvs = Inr t \<and>
      (\<forall>fuel. count t < fuel \<longrightarrow> iterate fuel t = Some (Inr vis)) \<and>
      length vis = count t \<and>
      distinct (map fst vis) \<and>
      set (map fst vis) = {(i, p). i < bucket_count t \<and> p < length (table_f t ! i)} \<and>
      map snd vis = entries t \<and>
      distinct (map fst (map snd vis)) \<and>
      fst ` set (map snd vis) = fst ` set ?kvs"
    by (elim exE)
  from r have r1: "build (\<lambda>k. k) 4 [(5, 11), (9, 12), (7, 13)] = Inr t" by (rule conjunct1)
  from r have r2: "\<forall>fuel. count t < fuel \<longrightarrow> iterate fuel t = Some (Inr vis)"
    by (elim conjE)
  from r have r3: "length vis = count t" by (elim conjE)
  from r have r4: "distinct (map fst vis)" by (elim conjE)
  from r have r5: "map snd vis = entries t" by (elim conjE)
  from r have r6: "fst ` set (map snd vis) = fst ` set ?kvs"
    by (elim conjE)
  from r1 have t: "t = three_in_four" by (simp add: build_three)
  have c: "count t = 3" by (simp add: t count_def three_in_four_def)
  have e: "entries t = [(5, 11), (9, 12), (7, 13)]"
    by (simp add: t entries_def three_in_four_def)
  have "count t < 4" by (simp add: c)
  with r2 have i: "iterate 4 t = Some (Inr vis)" by blast
  have k: "fst ` set (map snd vis) = {5, 9, 7}" unfolding r6 by simp
  have l: "length vis = 3" using r3 c by simp
  have m: "map snd vis = [(5, 11), (9, 12), (7, 13)]" using r5 e by simp
  have v: "vis = [((1, 0), (5, 11)), ((1, 1), (9, 12)), ((3, 0), (7, 13))]"
    using i unfolding t iterate_three by simp
  from r1 t i l r4 v m k
  have "\<exists>t vis. build (\<lambda>k. k) 4 [(5, 11), (9, 12), (7, 13)] = Inr t \<and> t = three_in_four \<and>
      iterate 4 t = Some (Inr vis) \<and> length vis = 3 \<and> distinct (map fst vis) \<and>
      vis = [((1, 0), (5, 11)), ((1, 1), (9, 12)), ((3, 0), (7, 13))] \<and>
      map snd vis = [(5, 11), (9, 12), (7, 13)] \<and>
      fst ` set (map snd vis) = {5, 9, 7}"
    by (intro exI conjI)
  with h1 h2 show ?thesis by (intro conjI)
qed

end
